theory Spec2Isabelle
  imports Main
begin

section \<open>Strings of the host language\<close>

text \<open>
  A source string is a \<^typ>\<open>string\<close>; each \<^typ>\<open>char\<close> stands for one UTF-16 code unit
  in the range 0..255. In that range code units and code points coincide, so the code-unit
  operations of the source (\<^verbatim>\<open>substring\<close>, \<^verbatim>\<open>split\<close>, regular expressions) and its
  code-point iteration (\<^verbatim>\<open>for (const char of jsonString)\<close>) count the same elements.
  Text with code units from 256 on is outside the model; there the iteration of
  \<^verbatim>\<open>getErrorLocation\<close> makes one step for a surrogate pair, which is two code units.
  The double quote is \<^term>\<open>CHR 0x22\<close>, the backslash \<^term>\<open>CHR 0x5C\<close>, the line feed
  \<^term>\<open>CHR 0x0A\<close>.
\<close>

definition is_space :: "char \<Rightarrow> bool" where
  \<comment> \<open>\<^verbatim>\<open>\s\<close> and the characters stripped by \<^verbatim>\<open>trim\<close>: TAB, LF, VT, FF, CR, SP, NBSP.\<close>
  "is_space c = (c \<in> {CHR 0x09, CHR 0x0A, CHR 0x0B, CHR 0x0C, CHR 0x0D, CHR 0x20, CHR 0xA0})"

definition is_digit :: "char \<Rightarrow> bool" where
  \<comment> \<open>\<^verbatim>\<open>\d\<close>\<close>
  "is_digit c = (c \<in> set ''0123456789'')"

definition is_word :: "char \<Rightarrow> bool" where
  \<comment> \<open>\<^verbatim>\<open>\w\<close>, which decides \<^verbatim>\<open>\b\<close>\<close>
  "is_word c = (c \<in> set ''abcdefghijklmnopqrstuvwxyzABCDEFGHIJKLMNOPQRSTUVWXYZ0123456789_'')"

definition trim :: "string \<Rightarrow> string" where
  "trim s = rev (dropWhile is_space (rev (dropWhile is_space s)))"

definition substring :: "string \<Rightarrow> nat \<Rightarrow> nat \<Rightarrow> string" where
  \<comment> \<open>\<^verbatim>\<open>s.substring(b, e)\<close> for \<open>b \<le> e\<close>; indices beyond the end are clamped\<close>
  "substring s b e = take (e - b) (drop b s)"

fun split_on :: "char \<Rightarrow> string \<Rightarrow> string list" where
  \<comment> \<open>\<^verbatim>\<open>s.split(sep)\<close> for a separator of one character; the empty string gives one empty piece\<close>
  "split_on sep [] = [[]]"
| "split_on sep (c # cs) =
     (if c = sep then [] # split_on sep cs
      else (case split_on sep cs of p # ps \<Rightarrow> (c # p) # ps | [] \<Rightarrow> [[c]]))"

subsection \<open>Regular expressions\<close>

text \<open>
  The program's regular expressions are kept as syntax trees and run by a backtracking
  matcher, as the host's engine does: \<open>run r s i c\<close> lists, in priority order, every end index
  (with the captures) at which \<open>r\<close> can match \<open>s\<close> from index \<open>i\<close>. The head of the list is
  the match the engine reports. A greedy star tries one more iteration before stopping and
  rejects an iteration that consumes nothing.
\<close>

type_synonym captures = "nat \<Rightarrow> (nat \<times> nat) option"

datatype regex =
    Chr "char \<Rightarrow> bool"
  | Eps
  | Seq regex regex
  | Alt regex regex
  | Star regex
  | Group nat regex
  | Bol
  | Eol
  | WordB

definition word_at :: "string \<Rightarrow> nat \<Rightarrow> bool" where
  "word_at s i = (i < length s \<and> is_word (s ! i))"

function run :: "regex \<Rightarrow> string \<Rightarrow> nat \<Rightarrow> captures \<Rightarrow> (nat \<times> captures) list" where
  "run (Chr p) s i c = (if i < length s \<and> p (s ! i) then [(Suc i, c)] else [])"
| "run Eps s i c = [(i, c)]"
| "run (Seq r1 r2) s i c = concat (map (\<lambda>(j, c'). run r2 s j c') (run r1 s i c))"
| "run (Alt r1 r2) s i c = run r1 s i c @ run r2 s i c"
| "run (Star r) s i c =
     concat (map (\<lambda>(j, c'). if i < j \<and> j \<le> length s then run (Star r) s j c' else [])
                 (run r s i c)) @ [(i, c)]"
| "run (Group n r) s i c = map (\<lambda>(j, c'). (j, c'(n \<mapsto> (i, j)))) (run r s i c)"
| "run Bol s i c = (if i = 0 then [(i, c)] else [])"
| "run Eol s i c = (if i = length s then [(i, c)] else [])"
| "run WordB s i c =
     (if (0 < i \<and> word_at s (i - 1)) \<noteq> word_at s i then [(i, c)] else [])"
  by pat_completeness auto
termination
  by (relation "inv_image (less_than <*lex*> less_than) (\<lambda>(r, s, i, c). (size r, length s - i))")
     auto

definition lit :: "char \<Rightarrow> regex" where
  "lit a = Chr (\<lambda>c. c = a)"

definition one_of :: "string \<Rightarrow> regex" where
  \<comment> \<open>a character class \<^verbatim>\<open>[...]\<close>\<close>
  "one_of as = Chr (\<lambda>c. c \<in> set as)"

definition none_of :: "string \<Rightarrow> regex" where
  \<comment> \<open>a negated character class \<^verbatim>\<open>[^...]\<close>\<close>
  "none_of as = Chr (\<lambda>c. c \<notin> set as)"

definition Opt :: "regex \<Rightarrow> regex" where
  \<comment> \<open>\<^verbatim>\<open>r?\<close>, greedy\<close>
  "Opt r = Alt r Eps"

definition Plus :: "regex \<Rightarrow> regex" where
  \<comment> \<open>\<^verbatim>\<open>r+\<close>, greedy\<close>
  "Plus r = Seq r (Star r)"

fun str :: "string \<Rightarrow> regex" where
  "str [] = Eps"
| "str (a # as) = Seq (lit a) (str as)"

definition ci_char :: "char \<Rightarrow> char \<Rightarrow> regex" where
  \<comment> \<open>an ASCII letter under the \<^verbatim>\<open>i\<close> flag: either case\<close>
  "ci_char lo up = Chr (\<lambda>c. c = lo \<or> c = up)"

fun ci_str :: "string \<Rightarrow> string \<Rightarrow> regex" where
  "ci_str (a # as) (b # bs) = Seq (ci_char a b) (ci_str as bs)"
| "ci_str _ _ = Eps"

fun exec_at :: "regex \<Rightarrow> string \<Rightarrow> nat list \<Rightarrow> (nat \<times> nat \<times> captures) option" where
  \<comment> \<open>the first start index, among the candidates in order, at which the pattern matches\<close>
  "exec_at r s [] = None"
| "exec_at r s (b # bs) =
     (case run r s b Map.empty of
        [] \<Rightarrow> exec_at r s bs
      | (e, c) # _ \<Rightarrow> Some (b, e, c))"

definition exec :: "regex \<Rightarrow> string \<Rightarrow> (nat \<times> nat \<times> captures) option" where
  \<comment> \<open>\<^verbatim>\<open>s.match(r)\<close> of a pattern without the \<^verbatim>\<open>g\<close> flag: \<open>(index, end, captures)\<close>\<close>
  "exec r s = exec_at r s [0 ..< Suc (length s)]"

definition test :: "regex \<Rightarrow> string \<Rightarrow> bool" where
  \<comment> \<open>\<^verbatim>\<open>r.test(s)\<close>\<close>
  "test r s = (exec r s \<noteq> None)"

definition capture :: "string \<Rightarrow> captures \<Rightarrow> nat \<Rightarrow> string option" where
  \<comment> \<open>the text of capture \<open>n\<close>, when the group took part in the match\<close>
  "capture s c n = (case c n of None \<Rightarrow> None | Some (b, e) \<Rightarrow> Some (substring s b e))"

type_synonym replacer = "string \<Rightarrow> (nat \<Rightarrow> string option) \<Rightarrow> string"

fun expand :: "string \<Rightarrow> replacer" where
  \<comment> \<open>a replacement string: \<^verbatim>\<open>$$\<close>, \<^verbatim>\<open>$&\<close> and \<^verbatim>\<open>$1\<close>..\<^verbatim>\<open>$9\<close> are substituted (a group that
      took no part in the match by nothing). The program's templates use no other \<^verbatim>\<open>$\<close> form
      and refer only to group 1 of patterns that have it.\<close>
  "expand (a # b # t) m g =
     (if a = CHR ''$'' \<and> b = CHR ''$'' then CHR ''$'' # expand t m g
      else if a = CHR ''$'' \<and> b = CHR ''&'' then m @ expand t m g
      else if a = CHR ''$'' \<and> b \<in> set ''123456789''
        then (case g (of_char b - 48) of None \<Rightarrow> [] | Some x \<Rightarrow> x) @ expand t m g
      else a # expand (b # t) m g)"
| "expand t m g = t"

fun replace_scan :: "regex \<Rightarrow> replacer \<Rightarrow> string \<Rightarrow> nat list \<Rightarrow> nat \<Rightarrow> nat \<Rightarrow> string" where
  \<comment> \<open>\<^verbatim>\<open>s.replace(r, f)\<close> with the \<^verbatim>\<open>g\<close> flag, over the candidate start indices in order:
      \<open>li\<close> is \<^verbatim>\<open>lastIndex\<close>, \<open>done\<close> the end of the text already copied to the result\<close>
  "replace_scan r f s [] li done = drop done s"
| "replace_scan r f s (b # bs) li done =
     (if b < li then replace_scan r f s bs li done
      else case run r s b Map.empty of
        [] \<Rightarrow> replace_scan r f s bs li done
      | (e, c) # _ \<Rightarrow>
          substring s done b @ f (substring s b e) (capture s c)
          @ replace_scan r f s bs (if e = b then Suc b else e) e)"

definition replace_all :: "regex \<Rightarrow> replacer \<Rightarrow> string \<Rightarrow> string" where
  "replace_all r f s = replace_scan r f s [0 ..< Suc (length s)] 0 0"

definition replace_first :: "regex \<Rightarrow> replacer \<Rightarrow> string \<Rightarrow> string" where
  \<comment> \<open>\<^verbatim>\<open>s.replace(r, f)\<close> without the \<^verbatim>\<open>g\<close> flag\<close>
  "replace_first r f s =
     (case exec r s of
        None \<Rightarrow> s
      | Some (b, e, c) \<Rightarrow> take b s @ f (substring s b e) (capture s c) @ drop e s)"

section \<open>Error Locator\<close>

definition position_re :: regex where
  \<comment> \<open>\<^verbatim>\<open>/position\s+(\d+)/i\<close>\<close>
  "position_re =
     Seq (ci_str ''position'' ''POSITION'')
       (Seq (Plus (Chr is_space)) (Group 1 (Plus (Chr is_digit))))"

definition line_re :: regex where
  \<comment> \<open>\<^verbatim>\<open>/line\s+(\d+)/i\<close>\<close>
  "line_re =
     Seq (ci_str ''line'' ''LINE'')
       (Seq (Plus (Chr is_space)) (Group 1 (Plus (Chr is_digit))))"

definition parseInt10 :: "string \<Rightarrow> nat" where
  \<comment> \<open>\<^verbatim>\<open>parseInt(ds, 10)\<close> of the text captured by \<^verbatim>\<open>(\d+)\<close>: one or more decimal digits\<close>
  "parseInt10 ds = foldl (\<lambda>n d. 10 * n + (of_char d - 48)) 0 ds"

definition match_number :: "regex \<Rightarrow> string \<Rightarrow> nat option" where
  \<comment> \<open>\<^verbatim>\<open>m = msg.match(r)\<close> followed by \<^verbatim>\<open>parseInt(m[1], 10)\<close>; \<open>None\<close> when there is no match\<close>
  "match_number r msg =
     (case exec r msg of
        None \<Rightarrow> None
      | Some (b, e, c) \<Rightarrow> Some (parseInt10 (case capture msg c 1 of None \<Rightarrow> [] | Some ds \<Rightarrow> ds)))"

fun walk :: "nat \<Rightarrow> string \<Rightarrow> nat \<Rightarrow> nat \<Rightarrow> nat \<Rightarrow> nat \<times> nat" where
  \<comment> \<open>the \<^verbatim>\<open>for ... of\<close> loop of \<^verbatim>\<open>getErrorLocation\<close>: \<open>walk position rest line column currentPos\<close>\<close>
  "walk position [] line column currentPos = (line, column)"
| "walk position (char # rest) line column currentPos =
     (if currentPos \<ge> position then (line, column)
      else if char = CHR 0x0A then walk position rest (line + 1) 1 (currentPos + 1)
      else walk position rest line (column + 1) (currentPos + 1))"

definition getErrorLocation :: "string \<Rightarrow> string \<Rightarrow> (nat \<times> nat) option" where
  \<comment> \<open>src/unnamed/part_000; the second argument is \<^verbatim>\<open>error.message\<close>, the result \<open>(line, column)\<close>\<close>
  "getErrorLocation jsonString message =
     (case match_number position_re message of
        None \<Rightarrow> None
      | Some position \<Rightarrow> Some (walk position jsonString 1 1 0))"

definition getErrorLineNumber :: "string \<Rightarrow> string \<Rightarrow> nat option" where
  \<comment> \<open>src/src/app/page.tsx; the first argument is \<^verbatim>\<open>error.message\<close>\<close>
  "getErrorLineNumber message input =
     (case match_number position_re message of
        Some position \<Rightarrow> Some (length (split_on (CHR 0x0A) (substring input 0 position)))
      | None \<Rightarrow>
         (case match_number line_re message of
            Some n \<Rightarrow> Some n
          | None \<Rightarrow> None))"

section \<open>Highlighter\<close>

definition escaped :: "string \<Rightarrow> string" where
  \<comment> \<open>\<^verbatim>\<open>.replace(/&/g, "&amp;").replace(/</g, "&lt;").replace(/>/g, "&gt;")\<close>\<close>
  "escaped json =
     replace_all (lit CHR ''>'') (expand ''&gt;'')
       (replace_all (lit CHR ''<'') (expand ''&lt;'')
         (replace_all (lit CHR ''&'') (expand ''&amp;'') json))"

definition string_lit :: "string \<Rightarrow> regex" where
  \<comment> \<open>\<^verbatim>\<open>"(\\uH{4}|\\[^u]|[^\\"])*"\<close>, where \<open>H\<close> is the class given by \<open>hex\<close>\<close>
  "string_lit hex =
     Seq (lit (CHR 0x22))
       (Seq (Star (Group 2
               (Alt (Seq (lit (CHR 0x5C))
                      (Seq (lit CHR ''u'')
                        (Seq (one_of hex) (Seq (one_of hex) (Seq (one_of hex) (one_of hex))))))
                 (Alt (Seq (lit (CHR 0x5C)) (none_of ''u''))
                      (none_of [CHR 0x5C, CHR 0x22])))))
         (lit (CHR 0x22)))"

definition colon_tail :: regex where
  \<comment> \<open>\<^verbatim>\<open>\s*:\<close>\<close>
  "colon_tail = Seq (Star (Chr is_space)) (lit CHR '':'')"

definition string_alt :: "string \<Rightarrow> regex" where
  \<comment> \<open>\<^verbatim>\<open>"(\\uH{4}|\\[^u]|[^\\"])*"(\s*:)?\<close>\<close>
  "string_alt hex = Seq (string_lit hex) (Opt (Group 3 colon_tail))"

definition keyword_alt :: regex where
  \<comment> \<open>\<^verbatim>\<open>\b(true|false|null)\b\<close>\<close>
  "keyword_alt =
     Seq WordB (Seq (Group 4 (Alt (str ''true'') (Alt (str ''false'') (str ''null'')))) WordB)"

definition number_alt :: regex where
  \<comment> \<open>\<^verbatim>\<open>-?\d+(?:\.\d*)?(?:[eE][+\-]?\d+)?\<close>\<close>
  "number_alt =
     Seq (Opt (lit CHR ''-''))
       (Seq (Plus (Chr is_digit))
         (Seq (Opt (Seq (lit CHR ''.'') (Star (Chr is_digit))))
           (Opt (Seq (one_of ''eE'') (Seq (Opt (one_of ''+-'')) (Plus (Chr is_digit)))))))"

definition token_re :: "string \<Rightarrow> regex" where
  "token_re hex = Group 1 (Alt (string_alt hex) (Alt keyword_alt number_alt))"

definition token_re_part :: regex where
  \<comment> \<open>src/unnamed/part_000: the escape is \<^verbatim>\<open>\\u[a-fA-F0-9]{4}\<close>\<close>
  "token_re_part = token_re ''abcdefABCDEF0123456789''"

definition token_re_page :: regex where
  \<comment> \<open>src/src/app/page.tsx: the escape is \<^verbatim>\<open>\\u[a-zA-Z0-9]{4}\<close>\<close>
  "token_re_page =
     token_re ''abcdefghijklmnopqrstuvwxyzABCDEFGHIJKLMNOPQRSTUVWXYZ0123456789''"

definition starts_quote :: regex where
  \<comment> \<open>\<^verbatim>\<open>/^"/\<close>\<close>
  "starts_quote = Seq Bol (lit (CHR 0x22))"

definition ends_colon :: regex where
  \<comment> \<open>\<^verbatim>\<open>/:$/\<close>\<close>
  "ends_colon = Seq (lit CHR '':'') Eol"

definition true_or_false :: regex where
  \<comment> \<open>\<^verbatim>\<open>/true|false/\<close>\<close>
  "true_or_false = Alt (str ''true'') (str ''false'')"

definition null_re :: regex where
  \<comment> \<open>\<^verbatim>\<open>/null/\<close>\<close>
  "null_re = str ''null''"

subsection \<open>src/unnamed/part_000\<close>

definition cls :: "string \<Rightarrow> string" where
  \<comment> \<open>the value the callback assigns to \<^verbatim>\<open>cls\<close> for a match\<close>
  "cls match =
     (if test starts_quote match then
        (if test ends_colon match then ''json-key'' else ''json-string'')
      else if test true_or_false match then ''json-boolean''
      else if test null_re match then ''json-null''
      else ''json-number'')"

definition span_class :: "string \<Rightarrow> string \<Rightarrow> string" where
  "span_class c body = ''<span class=\"'' @ c @ ''\">'' @ body @ ''</span>''"

definition syntaxHighlight :: "string \<Rightarrow> string" where
  "syntaxHighlight json =
     replace_all token_re_part (\<lambda>match g. span_class (cls match) match) (escaped json)"

subsection \<open>src/src/app/page.tsx\<close>

datatype token_class = Key | String | Number | Boolean | Null | Bracket | Brace | Comma | Colon

fun syntaxColors :: "token_class \<Rightarrow> string" where
  "syntaxColors Key = ''#9cdcfe''"
| "syntaxColors String = ''#ce9178''"
| "syntaxColors Number = ''#b5cea8''"
| "syntaxColors Boolean = ''#569cd6''"
| "syntaxColors Null = ''#569cd6''"
| "syntaxColors Bracket = ''#ffd700''"
| "syntaxColors Brace = ''#da70d6''"
| "syntaxColors Comma = ''#d4d4d4''"
| "syntaxColors Colon = ''#d4d4d4''"

definition color_of :: "string \<Rightarrow> token_class" where
  \<comment> \<open>the field of \<^verbatim>\<open>syntaxColors\<close> that the callback assigns to \<^verbatim>\<open>color\<close> for a match\<close>
  "color_of match =
     (if test starts_quote match then
        (if test ends_colon match then Key else String)
      else if test true_or_false match then Boolean
      else if test null_re match then Null
      else Number)"

definition emitted :: "string \<Rightarrow> string" where
  \<comment> \<open>the value of \<^verbatim>\<open>match\<close> when the callback returns: reassigned for a key to
      \<^verbatim>\<open>match.replace(/"/g, '"').replace(/:$/, '":')\<close>, otherwise the match itself\<close>
  "emitted match =
     (if test starts_quote match \<and> test ends_colon match
      then replace_first ends_colon (expand [CHR 0x22, CHR '':''])
             (replace_all (lit (CHR 0x22)) (expand [CHR 0x22]) match)
      else match)"

definition span_color :: "string \<Rightarrow> string \<Rightarrow> string" where
  "span_color c body = ''<span style=\"color:'' @ c @ ''\">'' @ body @ ''</span>''"

definition brace_re :: regex where
  \<comment> \<open>\<^verbatim>\<open>/([{}])/g\<close>\<close>
  "brace_re = Group 1 (one_of ''{}'')"

definition bracket_re :: regex where
  \<comment> \<open>\<^verbatim>\<open>/([[\]])/g\<close>\<close>
  "bracket_re = Group 1 (one_of ''[]'')"

definition syntaxHighlight_page :: "string \<Rightarrow> string" where
  "syntaxHighlight_page json =
     replace_all bracket_re (expand (span_color (syntaxColors Bracket) ''$1''))
       (replace_all brace_re (expand (span_color (syntaxColors Brace) ''$1''))
         (replace_all token_re_page
            (\<lambda>match g. span_color (syntaxColors (color_of match)) (emitted match))
            (escaped json)))"

section \<open>The external JSON primitives\<close>

text \<open>
  \<^verbatim>\<open>JSON.parse\<close> and \<^verbatim>\<open>JSON.stringify\<close> are not part of the program. A parsed value is
  either \<^verbatim>\<open>null\<close> or some other value, whose representation is left open; parsing either
  throws a \<^verbatim>\<open>SyntaxError\<close> (\<open>Inl\<close> of its message) or returns a value. The second argument
  of \<open>stringify\<close> is the indentation, \<open>None\<close> when the call passes none.
\<close>

datatype 'v jsval = JsNull | JsOther 'v

record 'v JSON =
  parse :: "string \<Rightarrow> string + 'v jsval"
  stringify :: "'v jsval \<Rightarrow> nat option \<Rightarrow> string"

section \<open>The page component of src/src/app/page.tsx\<close>

datatype alert = ValidJson

record page_state =
  input :: string
  output_text :: string  \<comment> \<open>the state cell \<^verbatim>\<open>output\<close>\<close>
  error :: "string option"
  errorLine :: "nat option"
  copied :: bool
  indentSize :: nat
  alerts :: "alert list"  \<comment> \<open>the calls of \<^verbatim>\<open>alert\<close> made so far\<close>

definition formatJSON :: "'v JSON \<Rightarrow> page_state \<Rightarrow> page_state" where
  "formatJSON J st =
     (if trim (input st) = [] then st\<lparr>output_text := [], error := None, errorLine := None\<rparr>
      else case parse J (input st) of
        Inr parsed \<Rightarrow>
          st\<lparr>output_text := stringify J parsed (Some (indentSize st)), error := None,
             errorLine := None\<rparr>
      | Inl message \<Rightarrow>
          st\<lparr>error := Some message, errorLine := getErrorLineNumber message (input st),
             output_text := []\<rparr>)"

definition minifyJSON :: "'v JSON \<Rightarrow> page_state \<Rightarrow> page_state" where
  "minifyJSON J st =
     (if trim (input st) = [] then st\<lparr>output_text := [], error := None, errorLine := None\<rparr>
      else case parse J (input st) of
        Inr parsed \<Rightarrow>
          st\<lparr>output_text := stringify J parsed None, error := None, errorLine := None\<rparr>
      | Inl message \<Rightarrow>
          st\<lparr>error := Some message, errorLine := getErrorLineNumber message (input st),
             output_text := []\<rparr>)"

definition validateJSON :: "'v JSON \<Rightarrow> page_state \<Rightarrow> page_state" where
  "validateJSON J st =
     (if trim (input st) = []
      then st\<lparr>error := Some ''Please enter some JSON to validate'', errorLine := None\<rparr>
      else case parse J (input st) of
        Inr parsed \<Rightarrow> st\<lparr>error := None, errorLine := None, alerts := alerts st @ [ValidJson]\<rparr>
      | Inl message \<Rightarrow>
          st\<lparr>error := Some message, errorLine := getErrorLineNumber message (input st)\<rparr>)"

datatype line_note = NoNote | LineNote nat | BareNumber nat

definition error_panel :: "page_state \<Rightarrow> (string \<times> line_note) option" where
  \<comment> \<open>what \<^verbatim>\<open>{error && (... {error} {errorLine && (<span>(Line {errorLine})</span>)} ...)}\<close>
      shows: nothing for \<^verbatim>\<open>null\<close> or the empty message; a falsy \<^verbatim>\<open>errorLine\<close> that is a
      number is rendered as that number\<close>
  "error_panel st =
     (case error st of
        None \<Rightarrow> None
      | Some message \<Rightarrow>
          if message = [] then None
          else Some (message,
                 case errorLine st of
                   None \<Rightarrow> NoNote
                 | Some n \<Rightarrow> if n = 0 then BareNumber n else LineNote n))"

section \<open>The component of src/unnamed/part_000\<close>

record JsonError =
  message :: string
  line :: "nat option"
  column :: "nat option"

record part_state =
  input' :: string
  output' :: string
  error' :: "JsonError option"
  copied' :: bool
  highlightedOutput :: string

definition parseAndValidate :: "'v JSON \<Rightarrow> string \<Rightarrow> 'v jsval \<times> JsonError option" where
  \<comment> \<open>the pair is \<^verbatim>\<open>{ parsed, error }\<close>\<close>
  "parseAndValidate J jsonString =
     (if trim jsonString = [] then (JsNull, None)
      else case parse J jsonString of
        Inr parsed \<Rightarrow> (parsed, None)
      | Inl msg \<Rightarrow>
          (let location = getErrorLocation jsonString msg
           in (JsNull,
               Some \<lparr>message = msg, line = map_option fst location,
                     column = map_option snd location\<rparr>)))"

definition formatJson :: "'v JSON \<Rightarrow> bool \<Rightarrow> part_state \<Rightarrow> part_state" where
  "formatJson J minify st =
     (case parseAndValidate J (input' st) of
        (parsed, Some parseError) \<Rightarrow>
          st\<lparr>error' := Some parseError, output' := [], highlightedOutput := []\<rparr>
      | (parsed, None) \<Rightarrow>
          if parsed = JsNull
          then st\<lparr>error' := None, output' := [], highlightedOutput := []\<rparr>
          else
            (let formatted = (if minify then stringify J parsed None
                              else stringify J parsed (Some 2))
             in st\<lparr>error' := None, output' := formatted,
                   highlightedOutput := syntaxHighlight formatted\<rparr>))"

definition handleFormat :: "'v JSON \<Rightarrow> part_state \<Rightarrow> part_state" where
  "handleFormat J = formatJson J False"

definition handleMinify :: "'v JSON \<Rightarrow> part_state \<Rightarrow> part_state" where
  "handleMinify J = formatJson J True"

definition error_panel' :: "part_state \<Rightarrow> (string \<times> (nat \<times> nat option) option) option" where
  \<comment> \<open>what \<^verbatim>\<open>{error && ...}\<close> shows: the message, and \<^verbatim>\<open>Line l\<close> with \<^verbatim>\<open>, Column c\<close> when
      they are not \<^verbatim>\<open>null\<close>\<close>
  "error_panel' st =
     (case error' st of
        None \<Rightarrow> None
      | Some e \<Rightarrow>
          Some (message e, case line e of None \<Rightarrow> None | Some l \<Rightarrow> Some (l, column e)))"

section \<open>Auxiliary notions for the properties\<close>

text \<open>One step of the character walk of \<open>getErrorLocation\<close>, on the pair \<open>(line, column)\<close>.\<close>

fun advance :: "char \<Rightarrow> nat \<times> nat \<Rightarrow> nat \<times> nat" where
  "advance ch (l, c) = (if ch = CHR 0x0A then (l + 1, 1) else (l, c + 1))"

text \<open>A word that reads as \<open>lo\<close> when letter case is ignored (\<open>up\<close> is \<open>lo\<close> in capitals).\<close>

definition spells :: "string \<Rightarrow> string \<Rightarrow> string \<Rightarrow> bool" where
  "spells lo up w = (length w = length lo \<and> (\<forall>k < length w. w ! k = lo ! k \<or> w ! k = up ! k))"



text \<open>What the three escaping passes should do to one character, and the well-formedness of
  the result: every ampersand starts one of the three entities.\<close>

fun esc1 :: "char \<Rightarrow> string" where
  "esc1 c = (if c = CHR ''&'' then ''&amp;'' else if c = CHR ''<'' then ''&lt;''
             else if c = CHR ''>'' then ''&gt;'' else [c])"

fun amp_escaped :: "string \<Rightarrow> bool" where
  "amp_escaped [] = True"
| "amp_escaped (c # cs) =
     (if c = CHR ''&''
      then (take 4 cs = ''amp;'' \<or> take 3 cs = ''lt;'' \<or> take 3 cs = ''gt;'') \<and> amp_escaped cs
      else amp_escaped cs)"

text \<open>
  The tags each highlighter injects, and the removal of exactly these tags from a text:
  \<open>untag tags xs\<close> deletes every occurrence of a listed tag and keeps all other characters.
\<close>

definition tags_part :: "string list" where
  "tags_part =
     map (\<lambda>c. ''<span class=\"'' @ c @ ''\">'')
       [''json-key'', ''json-string'', ''json-number'', ''json-boolean'', ''json-null'']
     @ [''</span>'']"

definition tags_page :: "string list" where
  "tags_page =
     map (\<lambda>c. ''<span style=\"color:'' @ syntaxColors c @ ''\">'')
       [Key, String, Number, Boolean, Bracket, Brace]
     @ [''</span>'']"

definition is_tag_at :: "string \<Rightarrow> string \<Rightarrow> bool" where
  "is_tag_at xs t = (t \<noteq> [] \<and> take (length t) xs = t)"

function untag :: "string list \<Rightarrow> string \<Rightarrow> string" where
  "untag tags [] = []"
| "untag tags (c # cs) =
     (case find (is_tag_at (c # cs)) tags of
        None \<Rightarrow> c # untag tags cs
      | Some t \<Rightarrow> untag tags (drop (length t) (c # cs)))"
  by pat_completeness auto
termination
proof (relation "measure (\<lambda>(tags, xs). length xs)")
  show "wf (measure (\<lambda>(tags, xs). length xs))"
    by simp
next
  fix tags :: "string list" and c :: char and cs :: string
  show "((tags, cs), (tags, c # cs)) \<in> measure (\<lambda>(tags, xs). length xs)"
    by simp
next
  fix tags :: "string list" and c :: char and cs :: string and t :: string
  assume "find (is_tag_at (c # cs)) tags = Some t"
  then have "t \<noteq> []"
    by (auto simp: find_Some_iff is_tag_at_def)
  then show "((tags, drop (length t) (c # cs)), (tags, c # cs)) \<in> measure (\<lambda>(tags, xs). length xs)"
    by (cases t) auto
qed

text \<open>Tags that begin with \<^verbatim>\<open><\<close> and of which none is a proper prefix of another.\<close>

definition tags_ok :: "string list \<Rightarrow> bool" where
  "tags_ok tags =
     ((\<forall>t \<in> set tags. t \<noteq> [] \<and> hd t = CHR ''<'')
      \<and> (\<forall>t \<in> set tags. \<forall>t' \<in> set tags. take (length t) t' = t \<longrightarrow> t = t'))"

text \<open>
  The text of page.tsx after its token pass, before the two passes for braces and brackets;
  and what those two passes together do to one character.
\<close>

definition token_pass_page :: "string \<Rightarrow> string" where
  "token_pass_page json =
     replace_all token_re_page
       (\<lambda>match g. span_color (syntaxColors (color_of match)) (emitted match))
       (escaped json)"

definition wrap_structural :: "char \<Rightarrow> string" where
  "wrap_structural c =
     (if c \<in> set ''{}'' then span_color (syntaxColors Brace) [c]
      else if c \<in> set ''[]'' then span_color (syntaxColors Bracket) [c]
      else [c])"

section \<open>A stand-in for the JSON primitives\<close>

text \<open>
  The examples below need some parser. This one accepts the empty object and rejects every
  other text with the message the V8 engine gives for a truncated document.
\<close>

definition sample_JSON :: "unit JSON" where
  "sample_JSON =
     \<lparr>parse = (\<lambda>s. if s = ''{}'' then Inr (JsOther ()) else Inl ''Unexpected end of JSON input''),
      stringify = (\<lambda>v n. ''{}'')\<rparr>"

section \<open>Facts about the matcher\<close>

declare run.simps [simp del]

lemma in_run_Seq:
  "(j, c') \<in> set (run (Seq r1 r2) s i c) \<longleftrightarrow>
     (\<exists>k d. (k, d) \<in> set (run r1 s i c) \<and> (j, c') \<in> set (run r2 s k d))"
  by (auto simp: run.simps(3))

lemma in_run_Alt:
  "(j, c') \<in> set (run (Alt r1 r2) s i c) \<longleftrightarrow>
     (j, c') \<in> set (run r1 s i c) \<or> (j, c') \<in> set (run r2 s i c)"
  by (simp add: run.simps(4))

lemma in_run_Star:
  "(j, c') \<in> set (run (Star r) s i c) \<longleftrightarrow>
     (j, c') = (i, c) \<or>
     (\<exists>k d. (k, d) \<in> set (run r s i c) \<and> i < k \<and> k \<le> length s
            \<and> (j, c') \<in> set (run (Star r) s k d))"
  by (subst run.simps(5)) (auto split: if_splits)

lemma in_run_Group:
  "(j, c') \<in> set (run (Group n r) s i c) \<longleftrightarrow>
     (\<exists>d. (j, d) \<in> set (run r s i c) \<and> c' = d(n \<mapsto> (i, j)))"
  by (auto simp: run.simps(6))

lemma in_run_Chr:
  "(j, c') \<in> set (run (Chr p) s i c) \<longleftrightarrow> i < length s \<and> p (s ! i) \<and> j = Suc i \<and> c' = c"
  by (auto simp: run.simps(1))

lemma run_bounds:
  "(j, c') \<in> set (run r s i c) \<Longrightarrow> i \<le> j \<and> (i \<le> length s \<longrightarrow> j \<le> length s)"
proof (induction r s i c arbitrary: j c' rule: run.induct)
  case (1 p s i c)
  then show ?case by (auto simp: in_run_Chr)
next
  case (2 s i c)
  then show ?case by (simp add: run.simps(2))
next
  case (3 r1 r2 s i c)
  from "3.prems" obtain k d where kd: "(k, d) \<in> set (run r1 s i c)"
    and j: "(j, c') \<in> set (run r2 s k d)"
    by (auto simp: in_run_Seq)
  from "3.IH"(1) [OF kd] have "i \<le> k \<and> (i \<le> length s \<longrightarrow> k \<le> length s)" .
  moreover from "3.IH"(2) [OF kd refl j]
  have "k \<le> j \<and> (k \<le> length s \<longrightarrow> j \<le> length s)" .
  ultimately show ?case by auto
next
  case (4 r1 r2 s i c)
  then show ?case by (auto simp: in_run_Alt)
next
  case (5 r s i c)
  from "5.prems" consider "(j, c') = (i, c)"
    | k d where "(k, d) \<in> set (run r s i c)" "i < k" "k \<le> length s"
        "(j, c') \<in> set (run (Star r) s k d)"
    using in_run_Star [of j c' r s i c] by blast
  then show ?case
  proof cases
    case 1
    then show ?thesis by simp
  next
    case 2
    from "5.IH"(2) [OF 2(1) refl _ 2(4)] 2(2,3)
    have "k \<le> j \<and> (k \<le> length s \<longrightarrow> j \<le> length s)" by simp
    with 2(2,3) show ?thesis by auto
  qed
next
  case (6 n r s i c)
  then show ?case by (auto simp: in_run_Group)
next
  case (7 s i c)
  then show ?case by (auto simp: run.simps(7) split: if_splits)
next
  case (8 s i c)
  then show ?case by (auto simp: run.simps(8) split: if_splits)
next
  case (9 s i c)
  then show ?case by (auto simp: run.simps(9) split: if_splits)
qed

lemma exec_at_None: "exec_at r s bs = None \<longleftrightarrow> (\<forall>b \<in> set bs. run r s b Map.empty = [])"
  by (induction bs) (auto split: list.splits)

lemma test_iff: "test r s \<longleftrightarrow> (\<exists>b \<le> length s. run r s b Map.empty \<noteq> [])"
proof -
  have "set [0 ..< Suc (length s)] = {b. b \<le> length s}"
    by auto
  then show ?thesis
    unfolding test_def exec_def exec_at_None by blast
qed















lemma exec_at_Some:
  "exec_at r s bs = Some (b, e, c) \<Longrightarrow> b \<in> set bs \<and> (\<exists>rest. run r s b Map.empty = (e, c) # rest)"
  by (induction bs) (auto split: list.splits)

subsection \<open>Substrings\<close>

lemma substring_snoc:
  "d \<le> b \<Longrightarrow> b < length s \<Longrightarrow> substring s d (Suc b) = substring s d b @ [s ! b]"
proof -
  assume a: "d \<le> b" "b < length s"
  then have "take (Suc (b - d)) (drop d s) = take (b - d) (drop d s) @ [drop d s ! (b - d)]"
    by (simp add: take_Suc_conv_app_nth)
  moreover have "Suc b - d = Suc (b - d)" using a by simp
  ultimately show ?thesis using a by (simp add: substring_def)
qed

lemma substring_one: "b < length s \<Longrightarrow> substring s b (Suc b) = [s ! b]"
  by (simp add: substring_def take_Suc_conv_app_nth)

lemma set_substring: "set (substring s b e) \<subseteq> set s"
  by (metis substring_def set_drop_subset set_take_subset subset_trans)

lemma substring_join:
  "d \<le> b \<Longrightarrow> b \<le> e \<Longrightarrow> e \<le> length s \<Longrightarrow>
   substring s d b @ substring s b e @ drop e s = drop d s"
proof -
  assume a: "d \<le> b" "b \<le> e" "e \<le> length s"
  have 1: "substring s b e @ drop e s = drop b s"
    using a by (metis substring_def append_take_drop_id drop_drop le_add_diff_inverse2)
  have 2: "substring s d b @ drop b s = drop d s"
    using a by (metis substring_def append_take_drop_id drop_drop le_add_diff_inverse2)
  show ?thesis using 1 2 by simp
qed


subsection \<open>Replacing\<close>

lemma replace_scan_single:
  assumes single: "\<And>b. run r s b Map.empty =
                       (if b < length s \<and> p (s ! b) then [(Suc b, cf b)] else [])"
    and repl: "\<And>b. b < length s \<Longrightarrow> p (s ! b) \<Longrightarrow> f [s ! b] (capture s (cf b)) = h (s ! b)"
  shows "b \<le> length s \<Longrightarrow> d \<le> b \<Longrightarrow>
         replace_scan r f s [b ..< Suc (length s)] d d =
           substring s d b @ concat (map (\<lambda>ch. if p ch then h ch else [ch]) (drop b s))"
proof (induction "length s - b" arbitrary: b d)
  case 0
  then have b: "b = length s" by simp
  have "[b ..< Suc (length s)] = [b]" using b by simp
  then show ?case
    using b "0.prems" by (simp add: single substring_def)
next
  case (Suc n)
  then have lt: "b < length s" by simp
  have upt: "[b ..< Suc (length s)] = b # [Suc b ..< Suc (length s)]"
    using lt by (simp add: upt_conv_Cons)
  have dr: "drop b s = s ! b # drop (Suc b) s"
    using lt by (simp add: Cons_nth_drop_Suc)
  have n: "n = length s - Suc b" using Suc.hyps(2) by simp
  show ?case
  proof (cases "p (s ! b)")
    case True
    have "replace_scan r f s [Suc b ..< Suc (length s)] (Suc b) (Suc b) =
            substring s (Suc b) (Suc b)
            @ concat (map (\<lambda>ch. if p ch then h ch else [ch]) (drop (Suc b) s))"
      using Suc.hyps(1) [OF n] lt by simp
    then show ?thesis
      using True lt Suc.prems
      by (simp add: upt single substring_one repl dr substring_def del: upt_Suc)
  next
    case False
    have "replace_scan r f s [Suc b ..< Suc (length s)] d d =
            substring s d (Suc b)
            @ concat (map (\<lambda>ch. if p ch then h ch else [ch]) (drop (Suc b) s))"
      using Suc.hyps(1) [OF n] lt Suc.prems by simp
    then show ?thesis
      using False lt Suc.prems
      by (simp add: upt single dr substring_snoc del: upt_Suc)
  qed
qed

lemma replace_all_single:
  assumes "\<And>b. run r s b Map.empty =
                       (if b < length s \<and> p (s ! b) then [(Suc b, cf b)] else [])"
    and "\<And>b. b < length s \<Longrightarrow> p (s ! b) \<Longrightarrow> f [s ! b] (capture s (cf b)) = h (s ! b)"
  shows "replace_all r f s = concat (map (\<lambda>ch. if p ch then h ch else [ch]) s)"
  using replace_scan_single [of r s p cf f h 0 0, OF assms]
  by (simp add: replace_all_def substring_def del: upt_Suc)

lemma expand_plain: "CHR ''$'' \<notin> set t \<Longrightarrow> expand t m g = t"
  by (induction t m g rule: expand.induct) auto

lemma run_lit:
  "run (lit a) s b c = (if b < length s \<and> s ! b = a then [(Suc b, c)] else [])"
  by (simp add: lit_def run.simps(1))

lemma replace_all_lit:
  "CHR ''$'' \<notin> set t \<Longrightarrow>
   replace_all (lit a) (expand t) s = concat (map (\<lambda>ch. if ch = a then t else [ch]) s)"
  by (rule replace_all_single [where cf = "\<lambda>_. Map.empty"]) (simp_all add: run_lit expand_plain)

lemma filter_replace_scan:
  assumes k: "\<And>m. filter P (k m) = filter P m"
  shows "\<forall>b \<in> set bs. b \<le> length s \<Longrightarrow> d \<le> li \<Longrightarrow>
         filter P (replace_scan r (\<lambda>m g. k m) s bs li d) = filter P (drop d s)"
proof (induction bs arbitrary: li d)
  case Nil
  then show ?case by simp
next
  case (Cons b bs)
  show ?case
  proof (cases "b < li")
    case True
    then show ?thesis using Cons by simp
  next
    case False
    show ?thesis
    proof (cases "run r s b Map.empty")
      case Nil
      then show ?thesis using False Cons by simp
    next
      case (Cons ec rest)
      obtain e c where ec: "ec = (e, c)" by (cases ec)
      have "(e, c) \<in> set (run r s b Map.empty)" using Cons ec by simp
      then have be: "b \<le> e" "e \<le> length s"
        using run_bounds [of e c r s b Map.empty] Cons.prems(1) by auto
      have db: "d \<le> b" using False Cons.prems(2) by simp
      have "filter P (replace_scan r (\<lambda>m g. k m) s bs (if e = b then Suc b else e) e)
            = filter P (drop e s)"
        using Cons.IH [of e "if e = b then Suc b else e"] Cons.prems(1) be by auto
      then have "filter P (replace_scan r (\<lambda>m g. k m) s (b # bs) li d)
            = filter P (substring s d b @ substring s b e @ drop e s)"
        using False Cons ec by (simp add: k)
      then show ?thesis using substring_join [OF db be] by simp
    qed
  qed
qed

lemma replace_all_identity: "replace_all r (\<lambda>m g. m) s = s"
  using filter_replace_scan [of "\<lambda>_. True" "\<lambda>m. m" "[0 ..< Suc (length s)]" s 0 0 r]
  by (simp add: replace_all_def del: upt_Suc)

lemma run_group_class:
  "run (Group n (one_of as)) s b Map.empty =
     (if b < length s \<and> s ! b \<in> set as then [(Suc b, [n \<mapsto> (b, Suc b)])] else [])"
  by (simp add: one_of_def run.simps(6) run.simps(1))

lemma replace_all_same: "replace_all (lit a) (expand [a]) m = m" if "a \<noteq> CHR ''$''"
proof -
  have "concat (map (\<lambda>ch. if ch = a then [a] else [ch]) m) = m"
    by (induction m) auto
  then show ?thesis
    using that by (simp add: replace_all_lit)
qed

section \<open>Blank input\<close>

lemma trim_empty_iff: "trim s = [] \<longleftrightarrow> (\<forall>c \<in> set s. is_space c)"
proof
  assume "trim s = []"
  then have "dropWhile is_space (rev (dropWhile is_space s)) = []"
    by (simp add: trim_def)
  then have a: "\<forall>c \<in> set (dropWhile is_space s). is_space c"
    by (simp add: dropWhile_eq_Nil_conv)
  show "\<forall>c \<in> set s. is_space c"
  proof
    fix c assume "c \<in> set s"
    then have "c \<in> set (takeWhile is_space s) \<or> c \<in> set (dropWhile is_space s)"
      by (metis Un_iff set_append takeWhile_dropWhile_id)
    then show "is_space c"
      using a by (auto dest: set_takeWhileD)
  qed
next
  assume "\<forall>c \<in> set s. is_space c"
  then show "trim s = []"
    by (auto simp: trim_def dest: set_dropWhileD)
qed

text \<open>
  C5, as amended. When the input is empty or holds only white space, \<open>formatJSON\<close> and
  \<open>minifyJSON\<close> (page.tsx) and \<open>formatJson\<close> (part_000) leave the empty output and no error
  (nor error line, nor highlighted output), and \<open>parseAndValidate\<close> returns no value and no
  error. \<open>validateJSON\<close> (page.tsx) instead sets the error to the request
  \<^verbatim>\<open>Please enter some JSON to validate\<close>, clears the error line and leaves the output as
  it was.
\<close>

theorem blank_input:
  assumes "\<forall>c \<in> set (input st). is_space c" and "\<forall>c \<in> set (input' pst). is_space c"
  shows "formatJSON J st = st\<lparr>output_text := [], error := None, errorLine := None\<rparr>
       \<and> minifyJSON J st = st\<lparr>output_text := [], error := None, errorLine := None\<rparr>
       \<and> validateJSON J st =
           st\<lparr>error := Some ''Please enter some JSON to validate'', errorLine := None\<rparr>
       \<and> parseAndValidate J (input' pst) = (JsNull, None)
       \<and> formatJson J minify pst = pst\<lparr>error' := None, output' := [], highlightedOutput := []\<rparr>"
proof -
  have a: "trim (input st) = []" and b: "trim (input' pst) = []"
    using assms by (simp_all add: trim_empty_iff)
  show ?thesis
    by (simp add: a b formatJSON_def minifyJSON_def validateJSON_def parseAndValidate_def
        formatJson_def)
qed

theorem blank_input_witness:
  "formatJSON sample_JSON
     \<lparr>input = [CHR 0x20, CHR 0x0A], output_text = ''{}'', error = Some ''old'', errorLine = Some 3,
      copied = False, indentSize = 2, alerts = []\<rparr>
   = \<lparr>input = [CHR 0x20, CHR 0x0A], output_text = [], error = None, errorLine = None,
      copied = False, indentSize = 2, alerts = []\<rparr>
   \<and> formatJson sample_JSON True
     \<lparr>input' = [CHR 0x09], output' = ''{}'', error' = None, copied' = False,
      highlightedOutput = ''{}''\<rparr>
   = \<lparr>input' = [CHR 0x09], output' = [], error' = None, copied' = False,
      highlightedOutput = []\<rparr>"
  using blank_input [of "\<lparr>input = [CHR 0x20, CHR 0x0A], output_text = ''{}'', error = Some ''old'',
      errorLine = Some 3, copied = False, indentSize = 2, alerts = []\<rparr>"
     "\<lparr>input' = [CHR 0x09], output' = ''{}'', error' = None, copied' = False,
      highlightedOutput = ''{}''\<rparr>" sample_JSON True]
  by (simp add: is_space_def)

text \<open>
  C5 as stated fails for \<open>validateJSON\<close>: on the empty input it reports an error, and an
  output left by an earlier operation stays.
\<close>

theorem validate_blank_counterexample:
  "error (validateJSON sample_JSON
     \<lparr>input = [], output_text = ''{}'', error = None, errorLine = None,
      copied = False, indentSize = 2, alerts = []\<rparr>) = Some ''Please enter some JSON to validate''
   \<and> output_text (validateJSON sample_JSON
     \<lparr>input = [], output_text = ''{}'', error = None, errorLine = None,
      copied = False, indentSize = 2, alerts = []\<rparr>) = ''{}''"
  by (simp add: validateJSON_def trim_def)

section \<open>A parse error clears the output\<close>

text \<open>
  C10. After \<open>formatJSON\<close>, \<open>minifyJSON\<close> (page.tsx) or \<open>formatJson\<close> (part_000, formatting or
  minifying), a state that holds an error holds the empty output, and in part_000 the empty
  highlighted output as well.
\<close>

theorem error_clears_output:
  "(error (formatJSON J st) \<noteq> None \<longrightarrow> output_text (formatJSON J st) = [])
   \<and> (error (minifyJSON J st) \<noteq> None \<longrightarrow> output_text (minifyJSON J st) = [])
   \<and> (error' (formatJson J minify pst) \<noteq> None \<longrightarrow>
        output' (formatJson J minify pst) = [] \<and> highlightedOutput (formatJson J minify pst) = [])"
  by (simp add: formatJSON_def minifyJSON_def formatJson_def Let_def
      split: sum.split prod.split option.split)

theorem error_clears_output_witness:
  "error (formatJSON sample_JSON
      \<lparr>input = ''{'', output_text = ''{}'', error = None, errorLine = None,
       copied = False, indentSize = 2, alerts = []\<rparr>) \<noteq> None
   \<and> output_text (formatJSON sample_JSON
      \<lparr>input = ''{'', output_text = ''{}'', error = None, errorLine = None,
       copied = False, indentSize = 2, alerts = []\<rparr>) = []
   \<and> error (minifyJSON sample_JSON
      \<lparr>input = ''{'', output_text = ''{}'', error = None, errorLine = None,
       copied = False, indentSize = 2, alerts = []\<rparr>) \<noteq> None
   \<and> error' (formatJson sample_JSON False
      \<lparr>input' = ''{'', output' = ''{}'', error' = None, copied' = False,
       highlightedOutput = ''{}''\<rparr>) \<noteq> None
   \<and> highlightedOutput (formatJson sample_JSON False
      \<lparr>input' = ''{'', output' = ''{}'', error' = None, copied' = False,
       highlightedOutput = ''{}''\<rparr>) = []"
  using error_clears_output [of sample_JSON
      "\<lparr>input = ''{'', output_text = ''{}'', error = None, errorLine = None,
       copied = False, indentSize = 2, alerts = []\<rparr>" False
      "\<lparr>input' = ''{'', output' = ''{}'', error' = None, copied' = False,
       highlightedOutput = ''{}''\<rparr>"]
  by (simp add: formatJSON_def minifyJSON_def formatJson_def parseAndValidate_def
      sample_JSON_def trim_def is_space_def Let_def)

section \<open>Error Locator\<close>

lemma walk_fold_add:
  "walk (k + n) t l c k = fold advance (take n t) (l, c)"
proof (induction t arbitrary: l c k n)
  case Nil
  then show ?case by simp
next
  case (Cons ch t)
  show ?case
  proof (cases n)
    case 0
    then show ?thesis by simp
  next
    case (Suc m)
    have "walk (Suc k + m) t l' c' (Suc k) = fold advance (take m t) (l', c')" for l' c'
      using Cons.IH [of "Suc k" m l' c'] by simp
    then show ?thesis
      using Suc by simp
  qed
qed

lemma walk_fold:
  "walk position t l c 0 = fold advance (take position t) (l, c)"
  using walk_fold_add [of 0 position t l c] by simp

lemma fold_advance_line: "fst (fold advance u (l, c)) = l + count_list u (CHR 0x0A)"
  by (induction u arbitrary: l c) simp_all

lemma fold_advance_column:
  "snd (fold advance u (l, c)) =
     (if CHR 0x0A \<in> set u then 1 + length (takeWhile (\<lambda>x. x \<noteq> CHR 0x0A) (rev u))
      else c + length u)"
proof (induction u arbitrary: l c)
  case Nil
  then show ?case by simp
next
  case (Cons a u)
  show ?case
  proof (cases "CHR 0x0A \<in> set u")
    case True
    then have "takeWhile (\<lambda>x. x \<noteq> CHR 0x0A) (rev u @ [a]) = takeWhile (\<lambda>x. x \<noteq> CHR 0x0A) (rev u)"
      by (auto simp: takeWhile_append)
    then show ?thesis using True Cons.IH by simp
  next
    case False
    then have "takeWhile (\<lambda>x. x \<noteq> CHR 0x0A) (rev u) = rev u"
      by (auto simp: takeWhile_eq_all_conv)
    then show ?thesis using False Cons.IH
      by (auto simp: takeWhile_append)
  qed
qed

lemma split_on_not_Nil: "split_on sep s \<noteq> []"
  by (induction s) (auto split: list.splits)

lemma length_split_on: "length (split_on sep s) = 1 + count_list s sep"
  by (induction s) (auto split: list.splits simp: split_on_not_Nil)


lemma walk_result:
  "walk position t 1 1 0 =
     (1 + count_list (take position t) (CHR 0x0A),
      if CHR 0x0A \<in> set (take position t)
      then 1 + length (takeWhile (\<lambda>x. x \<noteq> CHR 0x0A) (rev (take position t)))
      else 1 + min position (length t))"
proof -
  have "walk position t 1 1 0 = fold advance (take position t) (1, 1)"
    by (rule walk_fold)
  then show ?thesis
    using fold_advance_line [of "take position t" 1 1]
          fold_advance_column [of "take position t" 1 1]
    by (simp add: prod_eq_iff min.commute)
qed

subsection \<open>Messages that state a position\<close>

text \<open>
  The greedy \<^verbatim>\<open>\s+\<close> and \<^verbatim>\<open>(\d+)\<close> take all the white space and all the digits that follow the
  word. So a message that reads, at its first occurrence of the word \<^verbatim>\<open>position\<close> in any
  letter case, that word, white space and the digits \<open>ds\<close> (followed by no further digit)
  is one from which the locator extracts the number written by \<open>ds\<close>.
\<close>

lemma run_Star_Chr:
  "run (Star (Chr p)) s i c =
     map (\<lambda>j. (j, c)) (rev [i ..< Suc (i + length (takeWhile p (drop i s)))])"
proof (induction "length s - i" arbitrary: i)
  case 0
  then have "drop i s = []" by simp
  then show ?case
    by (subst run.simps(5)) (simp add: run.simps(1))
next
  case (Suc n)
  then have lt: "i < length s" by simp
  have dr: "drop i s = s ! i # drop (Suc i) s"
    using lt by (simp add: Cons_nth_drop_Suc)
  show ?case
  proof (cases "p (s ! i)")
    case True
    have n: "n = length s - Suc i" using Suc.hyps(2) by simp
    have "run (Star (Chr p)) s i c = run (Star (Chr p)) s (Suc i) c @ [(i, c)]"
      using True lt by (subst run.simps(5)) (simp add: run.simps(1))
    also have "\<dots> = map (\<lambda>j. (j, c))
        (rev [Suc i ..< Suc (Suc i + length (takeWhile p (drop (Suc i) s)))]) @ [(i, c)]"
      using Suc.hyps(1) [OF n] by simp
    also have "\<dots> = map (\<lambda>j. (j, c)) (rev [i ..< Suc (i + length (takeWhile p (drop i s)))])"
      using True by (simp add: dr upt_conv_Cons del: upt_Suc)
    finally show ?thesis .
  next
    case False
    then show ?thesis
      using lt by (subst run.simps(5)) (simp add: run.simps(1) dr)
  qed
qed

lemma run_Plus_Chr_hd:
  assumes "i < length s" and "p (s ! i)"
  shows "\<exists>rest. run (Plus (Chr p)) s i c = (i + length (takeWhile p (drop i s)), c) # rest"
proof -
  have dr: "drop i s = s ! i # drop (Suc i) s"
    using assms(1) by (simp add: Cons_nth_drop_Suc)
  have "run (Plus (Chr p)) s i c = run (Star (Chr p)) s (Suc i) c"
    using assms by (simp add: Plus_def run.simps(3) run.simps(1))
  also have "\<dots> = map (\<lambda>j. (j, c))
        (rev [Suc i ..< Suc (Suc i + length (takeWhile p (drop (Suc i) s)))])"
    by (rule run_Star_Chr)
  also have "\<dots> = (Suc i + length (takeWhile p (drop (Suc i) s)), c)
        # map (\<lambda>j. (j, c)) (rev [Suc i ..< Suc i + length (takeWhile p (drop (Suc i) s))])"
    by simp
  finally show ?thesis using assms(2) by (simp add: dr)
qed

lemma run_Plus_Chr_Nil: "\<not> (i < length s \<and> p (s ! i)) \<Longrightarrow> run (Plus (Chr p)) s i c = []"
  by (auto simp: Plus_def run.simps(3) run.simps(1))

lemma run_ci_str:
  "length lo = length up \<Longrightarrow>
   run (ci_str lo up) s i c =
     (if spells lo up (take (length lo) (drop i s)) then [(i + length lo, c)] else [])"
proof (induction lo up arbitrary: i rule: ci_str.induct)
  case (1 a as b bs)
  have sp: "spells (a # as) (b # bs) (take (Suc (length as)) (drop i s)) \<longleftrightarrow>
        i < length s \<and> (s ! i = a \<or> s ! i = b)
        \<and> spells as bs (take (length as) (drop (Suc i) s))"
  proof (cases "i < length s")
    case True
    then have dr: "drop i s = s ! i # drop (Suc i) s"
      by (simp add: Cons_nth_drop_Suc)
    show ?thesis
      using True by (auto simp: spells_def dr less_Suc_eq_0_disj)
  next
    case False
    then show ?thesis by (simp add: spells_def)
  qed
  have "run (ci_str (a # as) (b # bs)) s i c =
          (if i < length s \<and> (s ! i = a \<or> s ! i = b) then run (ci_str as bs) s (Suc i) c else [])"
    by (auto simp: run.simps(3) run.simps(1) ci_char_def)
  then show ?case
    using "1.IH" [of "Suc i"] "1.prems" sp by simp
qed (simp_all add: run.simps(2) spells_def)

lemma digit_not_space: "is_digit c \<Longrightarrow> \<not> is_space c"
  by (auto simp: is_digit_def is_space_def)

lemma takeWhile_prefix:
  assumes "\<forall>c \<in> set xs. p c" and "ys = [] \<or> \<not> p (hd ys)"
  shows "takeWhile p (xs @ ys) = xs"
proof -
  have "takeWhile p ys = []" using assms(2) by (cases ys) auto
  then show ?thesis using assms(1) by (simp add: takeWhile_append2)
qed

lemma exec_at_first:
  assumes "b < n" and "\<forall>x < b. run r s x Map.empty = []" and "run r s b Map.empty = (e, c) # others"
  shows "a \<le> b \<Longrightarrow> exec_at r s [a ..< n] = Some (b, e, c)"
proof (induction "b - a" arbitrary: a)
  case 0
  then have "a = b" by simp
  then show ?case using assms(1,3) by (simp add: upt_conv_Cons)
next
  case (Suc k)
  then have lt: "a < b" by simp
  then have "run r s a Map.empty = []" using assms(2) by simp
  moreover have "[a ..< n] = a # [Suc a ..< n]"
    using lt assms(1) by (simp add: upt_conv_Cons)
  moreover have "exec_at r s [Suc a ..< n] = Some (b, e, c)"
    using Suc.hyps(1) [of "Suc a"] Suc.hyps(2) lt by simp
  ultimately show ?case by simp
qed

lemma drop_Cons_nth: "drop i s = x # xs \<Longrightarrow> i < length s \<and> s ! i = x"
proof -
  assume d: "drop i s = x # xs"
  then have lt: "i < length s" by (cases "i < length s") auto
  then have "hd (drop i s) = s ! i" by (rule hd_drop_conv_nth)
  then show ?thesis using d lt by simp
qed

lemma run_number_pattern:
  assumes len: "length lo = length up"
    and here: "spells lo up (take (length lo) (drop b s))"
    and rest: "drop (b + length lo) s = sp @ ds @ post"
    and sp: "sp \<noteq> []" "\<forall>c \<in> set sp. is_space c"
    and ds: "ds \<noteq> []" "\<forall>c \<in> set ds. is_digit c"
    and post: "post = [] \<or> \<not> is_digit (hd post)"
  shows "\<exists>others. run (Seq (ci_str lo up) (Seq (Plus (Chr is_space)) (Group 1 (Plus (Chr is_digit)))))
              s b Map.empty
       = (b + length lo + length sp + length ds,
          [1 \<mapsto> (b + length lo + length sp, b + length lo + length sp + length ds)]) # others"
proof -
  let ?i0 = "b + length lo"
  let ?i1 = "?i0 + length sp"
  let ?i2 = "?i1 + length ds"
  have kw: "run (ci_str lo up) s b Map.empty = [(?i0, Map.empty)]"
    using run_ci_str [OF len, of s b Map.empty] here by simp
  have i0: "?i0 < length s" "is_space (s ! ?i0)"
  proof -
    obtain x xs where x: "sp = x # xs" using sp(1) by (cases sp) auto
    then have d: "drop ?i0 s = x # (xs @ ds @ post)" using rest by simp
    show "?i0 < length s" using drop_Cons_nth [OF d] by simp
    have "s ! ?i0 = x" using drop_Cons_nth [OF d] by simp
    then show "is_space (s ! ?i0)" using sp(2) x by simp
  qed
  have "ds @ post = [] \<or> \<not> is_space (hd (ds @ post))"
    using ds digit_not_space by (cases ds) auto
  then have tw1: "takeWhile is_space (drop ?i0 s) = sp"
    unfolding rest using sp(2) by (rule takeWhile_prefix [rotated])
  obtain others1 where pl1: "run (Plus (Chr is_space)) s ?i0 Map.empty = (?i1, Map.empty) # others1"
    using run_Plus_Chr_hd [of "?i0" s is_space Map.empty] i0 tw1 by auto
  have "drop (length sp) (drop ?i0 s) = ds @ post"
    unfolding rest by simp
  then have d1: "drop ?i1 s = ds @ post"
    by (simp add: add.commute)
  have i1: "?i1 < length s" "is_digit (s ! ?i1)"
  proof -
    obtain x xs where x: "ds = x # xs" using ds(1) by (cases ds) auto
    then have d: "drop ?i1 s = x # (xs @ post)" using d1 by simp
    show "?i1 < length s" using drop_Cons_nth [OF d] by simp
    have "s ! ?i1 = x" using drop_Cons_nth [OF d] by simp
    then show "is_digit (s ! ?i1)" using ds(2) x by simp
  qed
  have tw2: "takeWhile is_digit (drop ?i1 s) = ds"
    unfolding d1 using ds(2) post by (rule takeWhile_prefix)
  obtain others2 where pl2: "run (Plus (Chr is_digit)) s ?i1 Map.empty = (?i2, Map.empty) # others2"
    using run_Plus_Chr_hd [of "?i1" s is_digit Map.empty] i1 tw2 by auto
  have g: "run (Group 1 (Plus (Chr is_digit))) s ?i1 Map.empty
           = (?i2, [1 \<mapsto> (?i1, ?i2)]) # map (\<lambda>(j, c'). (j, c'(1 \<mapsto> (?i1, j)))) others2"
    by (simp add: run.simps(6) pl2)
  show ?thesis
    by (simp add: run.simps(3) kw pl1 g del: One_nat_def)
qed

lemma match_number_message:
  assumes len: "length lo = length up"
    and msg: "msg = pre @ kw @ sp @ ds @ post"
    and kw: "spells lo up kw"
    and sp: "sp \<noteq> []" "\<forall>c \<in> set sp. is_space c"
    and ds: "ds \<noteq> []" "\<forall>c \<in> set ds. is_digit c"
    and post: "post = [] \<or> \<not> is_digit (hd post)"
    and first: "\<forall>b < length pre. \<not> spells lo up (take (length lo) (drop b msg))"
  shows "match_number (Seq (ci_str lo up) (Seq (Plus (Chr is_space)) (Group 1 (Plus (Chr is_digit)))))
           msg = Some (parseInt10 ds)"
proof -
  let ?r = "Seq (ci_str lo up) (Seq (Plus (Chr is_space)) (Group 1 (Plus (Chr is_digit))))"
  let ?b = "length pre"
  let ?i1 = "?b + length lo + length sp"
  let ?i2 = "?i1 + length ds"
  have lkw: "length kw = length lo" using kw by (simp add: spells_def)
  have here: "spells lo up (take (length lo) (drop ?b msg))"
    using kw lkw by (simp add: msg)
  have rest: "drop (?b + length lo) msg = sp @ ds @ post"
    using lkw by (simp add: msg)
  obtain others where run: "run ?r msg ?b Map.empty = (?i2, [1 \<mapsto> (?i1, ?i2)]) # others"
    using run_number_pattern [OF len here rest sp ds post] by blast
  have none: "\<forall>x < ?b. run ?r msg x Map.empty = []"
    using first run_ci_str [OF len, of msg _ Map.empty] by (simp add: run.simps(3))
  have "?b < Suc (length msg)"
    by (simp add: msg)
  then have ex: "exec ?r msg = Some (?b, ?i2, [1 \<mapsto> (?i1, ?i2)])"
    unfolding exec_def using none run by (rule exec_at_first) simp
  have "drop ?i1 msg = ds @ post"
    using lkw by (simp add: msg)
  then have "substring msg ?i1 ?i2 = ds"
    by (simp add: substring_def)
  then show ?thesis
    by (simp add: match_number_def ex capture_def del: One_nat_def)
qed

lemma position_message:
  assumes "msg = pre @ kw @ sp @ ds @ post"
    and "spells ''position'' ''POSITION'' kw"
    and "sp \<noteq> []" "\<forall>c \<in> set sp. is_space c"
    and "ds \<noteq> []" "\<forall>c \<in> set ds. is_digit c"
    and "post = [] \<or> \<not> is_digit (hd post)"
    and "\<forall>b < length pre. \<not> spells ''position'' ''POSITION'' (take 8 (drop b msg))"
  shows "match_number position_re msg = Some (parseInt10 ds)"
  unfolding position_re_def
proof (rule match_number_message [OF _ assms(1-7)])
  show "length ''position'' = length ''POSITION''"
    by simp
  have l: "length ''position'' = 8"
    by simp
  show "\<forall>b < length pre. \<not> spells ''position'' ''POSITION'' (take (length ''position'') (drop b msg))"
    unfolding l by (rule assms(8))
qed

lemma parseInt10_snoc: "parseInt10 (ds @ [d]) = 10 * parseInt10 ds + (of_char d - 48)"
  by (simp add: parseInt10_def)

subsection \<open>The location\<close>

text \<open>
  C7. When the pattern \<^verbatim>\<open>/position\s+(\d+)/i\<close> extracts \<open>p\<close> from the message and \<open>p\<close> is
  at least the length of the text, the walk of \<open>getErrorLocation\<close> runs to the end of the
  text and the result is present: the line is one more than the number of line feeds of the
  text, the column one more than the length of what follows the last line feed.
  \<open>getErrorLineNumber\<close> returns the same line.
\<close>

theorem position_beyond_text:
  assumes "match_number position_re msg = Some p" and "length t \<le> p"
  shows "getErrorLocation t msg =
           Some (1 + count_list t (CHR 0x0A),
                 1 + length (takeWhile (\<lambda>x. x \<noteq> CHR 0x0A) (rev t)))
       \<and> getErrorLineNumber msg t = Some (1 + count_list t (CHR 0x0A))"
proof -
  have tk: "take p t = t" using assms(2) by simp
  have col: "(if CHR 0x0A \<in> set t
               then 1 + length (takeWhile (\<lambda>x. x \<noteq> CHR 0x0A) (rev t))
               else 1 + min p (length t))
             = 1 + length (takeWhile (\<lambda>x. x \<noteq> CHR 0x0A) (rev t))"
  proof (cases "CHR 0x0A \<in> set t")
    case True
    then show ?thesis by simp
  next
    case False
    then have "takeWhile (\<lambda>x. x \<noteq> CHR 0x0A) (rev t) = rev t"
      by (intro takeWhile_eq_all_conv [THEN iffD2]) auto
    then have "length (takeWhile (\<lambda>x. x \<noteq> CHR 0x0A) (rev t)) = length t"
      by (simp only: length_rev)
    then show ?thesis using False assms(2) by (simp only: min_def) simp
  qed
  have w: "walk p t 1 1 0 =
             (1 + count_list t (CHR 0x0A),
              1 + length (takeWhile (\<lambda>x. x \<noteq> CHR 0x0A) (rev t)))"
    using col by (simp only: walk_result tk)
  have "getErrorLocation t msg = Some (walk p t 1 1 0)"
    using assms(1) by (simp add: getErrorLocation_def)
  moreover have "getErrorLineNumber msg t = Some (length (split_on (CHR 0x0A) t))"
    using assms(1) tk by (simp add: getErrorLineNumber_def substring_def)
  ultimately show ?thesis
    by (simp only: w length_split_on)
qed

theorem position_beyond_text_witness:
  "getErrorLocation [CHR ''{'', CHR 0x0A, CHR ''a''] ''Unexpected end of JSON input at position 3''
     = Some (2, 2)
   \<and> getErrorLineNumber ''Unexpected end of JSON input at position 3'' [CHR ''{'', CHR 0x0A, CHR ''a'']
     = Some 2"
proof -
  have h1: "match_number position_re ''Unexpected end of JSON input at position 3'' = Some 3"
    by code_simp
  have h2: "length [CHR ''{'', CHR 0x0A, CHR ''a''] \<le> 3"
    by simp
  show ?thesis
    using position_beyond_text [OF h1 h2] by simp
qed







text \<open>
  C9. When the message matches neither \<^verbatim>\<open>/position\s+(\d+)/i\<close> nor \<^verbatim>\<open>/line\s+(\d+)/i\<close>,
  both locators return nothing. A handler whose parse failed with that message stores the
  message itself as the error, with no line (nor column), and the error panel shows the message
  without a location note.
\<close>

theorem no_location:
  assumes "\<not> test position_re msg" and "\<not> test line_re msg"
  shows "getErrorLocation t msg = None
       \<and> getErrorLineNumber msg t = None
       \<and> (trim (input st) \<noteq> [] \<and> parse J (input st) = Inl msg \<longrightarrow>
            error (formatJSON J st) = Some msg \<and> errorLine (formatJSON J st) = None
          \<and> error (minifyJSON J st) = Some msg \<and> errorLine (minifyJSON J st) = None
          \<and> error (validateJSON J st) = Some msg \<and> errorLine (validateJSON J st) = None
          \<and> (msg \<noteq> [] \<longrightarrow>
                error_panel (formatJSON J st) = Some (msg, NoNote)
              \<and> error_panel (minifyJSON J st) = Some (msg, NoNote)
              \<and> error_panel (validateJSON J st) = Some (msg, NoNote)))
       \<and> (trim (input' pst) \<noteq> [] \<and> parse J (input' pst) = Inl msg \<longrightarrow>
            error' (formatJson J minify pst) = Some \<lparr>message = msg, line = None, column = None\<rparr>
          \<and> error_panel' (formatJson J minify pst) = Some (msg, None))"
proof -
  have p: "match_number position_re msg = None" and l: "match_number line_re msg = None"
    using assms by (auto simp: test_def match_number_def split: option.splits)
  have loc: "getErrorLocation t' msg = None" and ln: "getErrorLineNumber msg t' = None" for t'
    by (simp_all add: getErrorLocation_def getErrorLineNumber_def p l)
  show ?thesis
    by (simp add: loc ln formatJSON_def minifyJSON_def validateJSON_def error_panel_def
        parseAndValidate_def formatJson_def error_panel'_def)
qed

theorem no_location_witness:
  "getErrorLocation ''{'' ''Unexpected end of JSON input'' = None
   \<and> getErrorLineNumber ''Unexpected end of JSON input'' ''{'' = None
   \<and> error (formatJSON sample_JSON
        \<lparr>input = ''{'', output_text = ''{}'', error = None, errorLine = Some 2,
         copied = False, indentSize = 2, alerts = []\<rparr>) = Some ''Unexpected end of JSON input''
   \<and> error_panel (formatJSON sample_JSON
        \<lparr>input = ''{'', output_text = ''{}'', error = None, errorLine = Some 2,
         copied = False, indentSize = 2, alerts = []\<rparr>)
       = Some (''Unexpected end of JSON input'', NoNote)
   \<and> error_panel' (formatJson sample_JSON False
        \<lparr>input' = ''{'', output' = ''{}'', error' = None, copied' = False,
         highlightedOutput = ''{}''\<rparr>)
       = Some (''Unexpected end of JSON input'', None)"
proof -
  have h1: "\<not> test position_re ''Unexpected end of JSON input''"
    by code_simp
  have h2: "\<not> test line_re ''Unexpected end of JSON input''"
    by code_simp
  have h3: "trim ''{'' \<noteq> []"
    by (simp add: trim_def is_space_def)
  have h4: "parse sample_JSON ''{'' = Inl ''Unexpected end of JSON input''"
    by (simp add: sample_JSON_def)
  show ?thesis
    using no_location [OF h1 h2, of "''{''"
        "\<lparr>input = ''{'', output_text = ''{}'', error = None, errorLine = Some 2,
         copied = False, indentSize = 2, alerts = []\<rparr>" sample_JSON
        "\<lparr>input' = ''{'', output' = ''{}'', error' = None, copied' = False,
         highlightedOutput = ''{}''\<rparr>" False] h3 h4
    by simp
qed

section \<open>Highlighter: escaping and tags\<close>

lemma escaped_esc1: "escaped s = concat (map esc1 s)"
proof -
  have "concat (map (\<lambda>ch. if ch = CHR ''>'' then ''&gt;'' else [ch])
          (concat (map (\<lambda>ch. if ch = CHR ''<'' then ''&lt;'' else [ch])
            (concat (map (\<lambda>ch. if ch = CHR ''&'' then ''&amp;'' else [ch]) s)))))
        = concat (map esc1 s)"
    by (induction s) auto
  then show ?thesis
    by (simp add: escaped_def replace_all_lit)
qed

lemma escaped_no_angle: "CHR ''<'' \<notin> set (escaped s) \<and> CHR ''>'' \<notin> set (escaped s)"
  by (auto simp: escaped_esc1 split: if_splits)

lemma amp_escaped_esc1: "amp_escaped (concat (map esc1 s))"
  by (induction s) auto

lemma untag_text:
  assumes "tags_ok tags" and "CHR ''<'' \<notin> set u"
  shows "untag tags (u @ v) = u @ untag tags v"
  using assms(2)
proof (induction u)
  case Nil
  then show ?case by simp
next
  case (Cons c u)
  have "\<not> is_tag_at (c # u @ v) t" if "t \<in> set tags" for t
  proof
    assume a: "is_tag_at (c # u @ v) t"
    then obtain x xs where t: "t = x # xs" by (cases t) (auto simp: is_tag_at_def)
    with a have "x = c" by (simp add: is_tag_at_def)
    moreover have "hd t = CHR ''<''" using assms(1) that a by (auto simp: tags_ok_def)
    ultimately show False using Cons.prems t by simp
  qed
  then have "find (is_tag_at (c # u @ v)) tags = None"
    by (simp add: find_None_iff)
  then show ?case using Cons by simp
qed

lemma untag_tag:
  assumes "tags_ok tags" and "t \<in> set tags"
  shows "untag tags (t @ v) = untag tags v"
proof -
  from assms have ne: "t \<noteq> []" by (auto simp: tags_ok_def)
  then obtain c cs where cs: "t @ v = c # cs" by (cases t) auto
  have here: "is_tag_at (t @ v) t" using ne by (simp add: is_tag_at_def)
  then obtain t' where f: "find (is_tag_at (t @ v)) tags = Some t'"
    using assms(2) by (cases "find (is_tag_at (t @ v)) tags") (auto simp: find_None_iff)
  then have t': "t' \<in> set tags" "is_tag_at (t @ v) t'"
    by (auto simp: find_Some_iff)
  have "t' = t"
  proof (cases "length t \<le> length t'")
    case True
    have "take (length t) t' = take (length t) (take (length t') (t @ v))"
      using t'(2) by (simp add: is_tag_at_def)
    also have "\<dots> = t" using True by (simp add: min_def)
    finally show ?thesis using assms t'(1) by (auto simp: tags_ok_def)
  next
    case False
    then have "take (length t') t = take (length t') (t @ v)" by simp
    also have "\<dots> = t'" using t'(2) by (simp add: is_tag_at_def)
    finally show ?thesis using assms t'(1) by (auto simp: tags_ok_def)
  qed
  moreover have "drop (length t) (c # cs) = v"
    using cs [symmetric] by simp
  ultimately show ?thesis using f cs by simp
qed

lemma untag_replace_scan:
  assumes ok: "tags_ok tags"
    and s: "CHR ''<'' \<notin> set s"
    and f: "\<And>m g. \<exists>t \<in> set tags. \<exists>t' \<in> set tags. f m g = t @ k m @ t'"
    and k: "\<And>m. CHR ''<'' \<notin> set m \<Longrightarrow> CHR ''<'' \<notin> set (k m)"
  shows "untag tags (replace_scan r f s bs li d) = replace_scan r (\<lambda>m g. k m) s bs li d"
proof (induction bs arbitrary: li d)
  case Nil
  have "CHR ''<'' \<notin> set (drop d s)" using s by (meson in_set_dropD)
  then show ?case using untag_text [OF ok, of "drop d s" "[]"] by simp
next
  case (Cons b bs)
  show ?case
  proof (cases "b < li")
    case True
    then show ?thesis using Cons.IH by simp
  next
    case False
    show ?thesis
    proof (cases "run r s b Map.empty")
      case Nil
      then show ?thesis using False Cons.IH by simp
    next
      case (Cons ec rest)
      obtain e c where ec: "ec = (e, c)" by (cases ec)
      let ?m = "substring s b e"
      obtain t t' where t: "t \<in> set tags" "t' \<in> set tags"
        "f ?m (capture s c) = t @ k ?m @ t'"
        using f by blast
      have m: "CHR ''<'' \<notin> set ?m" and pre: "CHR ''<'' \<notin> set (substring s d b)"
        using s set_substring by blast+
      have km: "CHR ''<'' \<notin> set (k ?m)" using k m by blast
      let ?rest = "replace_scan r f s bs (if e = b then Suc b else e) e"
      have "untag tags (substring s d b @ t @ k ?m @ t' @ ?rest)
            = substring s d b @ untag tags (t @ k ?m @ t' @ ?rest)"
        using untag_text [OF ok pre] by simp
      also have "\<dots> = substring s d b @ untag tags (k ?m @ t' @ ?rest)"
        using untag_tag [OF ok t(1)] by simp
      also have "\<dots> = substring s d b @ k ?m @ untag tags (t' @ ?rest)"
        using untag_text [OF ok km] by simp
      also have "\<dots> = substring s d b @ k ?m @ untag tags ?rest"
        using untag_tag [OF ok t(2)] by simp
      finally show ?thesis
        using False Cons ec t(3) Cons.IH by simp
    qed
  qed
qed

lemma tags_ok_part: "tags_ok tags_part"
  by (simp add: tags_ok_def tags_part_def)

lemma tags_ok_page: "tags_ok tags_page"
  by (simp add: tags_ok_def tags_page_def)

lemma cls_cases:
  "cls m \<in> {''json-key'', ''json-string'', ''json-number'', ''json-boolean'', ''json-null''}"
  by (simp add: cls_def)

lemma untag_syntaxHighlight: "untag tags_part (syntaxHighlight s) = escaped s"
proof -
  have f: "\<exists>t \<in> set tags_part. \<exists>t' \<in> set tags_part. span_class (cls m) m = t @ m @ t'" for m
    using cls_cases [of m] by (auto simp: span_class_def tags_part_def)
  have "untag tags_part (replace_scan token_re_part (\<lambda>m g. span_class (cls m) m) (escaped s) bs 0 0)
        = replace_scan token_re_part (\<lambda>m g. m) (escaped s) bs 0 0" for bs
    by (rule untag_replace_scan [OF tags_ok_part]) (use escaped_no_angle f in auto)
  then show ?thesis
    using replace_all_identity [of token_re_part "escaped s"]
    by (simp add: syntaxHighlight_def replace_all_def del: upt_Suc)
qed

lemma expand_span_group1:
  assumes "col = syntaxColors Brace \<or> col = syntaxColors Bracket" and "g 1 = Some x"
  shows "expand (span_color col ''$1'') m g = span_color col x"
  using assms by (auto simp: span_color_def)

lemma replace_all_group_class:
  assumes "col = syntaxColors Brace \<or> col = syntaxColors Bracket"
  shows "replace_all (Group 1 (one_of as)) (expand (span_color col ''$1'')) s
         = concat (map (\<lambda>ch. if ch \<in> set as then span_color col [ch] else [ch]) s)"
proof (rule replace_all_single [where cf = "\<lambda>b. [1 \<mapsto> (b, Suc b)]"])
  show "run (Group 1 (one_of as)) s b Map.empty =
          (if b < length s \<and> s ! b \<in> set as then [(Suc b, [1 \<mapsto> (b, Suc b)])] else [])" for b
    by (rule run_group_class)
next
  fix b assume "b < length s" "s ! b \<in> set as"
  then have "capture s [1 \<mapsto> (b, Suc b)] 1 = Some [s ! b]"
    by (simp add: capture_def substring_one)
  then show "expand (span_color col ''$1'') [s ! b] (capture s [1 \<mapsto> (b, Suc b)])
             = span_color col [s ! b]"
    by (rule expand_span_group1 [OF assms])
qed

lemma syntaxHighlight_page_wrap:
  "syntaxHighlight_page json = concat (map wrap_structural (token_pass_page json))"
proof -
  have w: "concat (map (\<lambda>ch. if ch \<in> set ''[]'' then span_color (syntaxColors Bracket) [ch] else [ch])
          (concat (map (\<lambda>ch. if ch \<in> set ''{}'' then span_color (syntaxColors Brace) [ch] else [ch]) t)))
        = concat (map wrap_structural t)" for t
    by (induction t) (auto simp: wrap_structural_def span_color_def)
  have b1: "replace_all brace_re (expand (span_color (syntaxColors Brace) ''$1'')) t
        = concat (map (\<lambda>ch. if ch \<in> set ''{}'' then span_color (syntaxColors Brace) [ch] else [ch]) t)"
    for t
    unfolding brace_re_def by (rule replace_all_group_class) simp
  have b2: "replace_all bracket_re (expand (span_color (syntaxColors Bracket) ''$1'')) t
        = concat (map (\<lambda>ch. if ch \<in> set ''[]'' then span_color (syntaxColors Bracket) [ch] else [ch]) t)"
    for t
    unfolding bracket_re_def by (rule replace_all_group_class) simp
  show ?thesis
    unfolding syntaxHighlight_page_def b1 b2 w token_pass_page_def ..
qed

lemma run_ends_colon:
  "run ends_colon s b c = (if Suc b = length s \<and> s ! b = CHR '':'' then [(Suc b, c)] else [])"
  by (auto simp: ends_colon_def run.simps(3) run_lit run.simps(8))

lemma test_ends_colon: "test ends_colon m \<longleftrightarrow> m \<noteq> [] \<and> last m = CHR '':''"
proof -
  have "(\<exists>b. Suc b = length m \<and> m ! b = CHR '':'') \<longleftrightarrow> m \<noteq> [] \<and> last m = CHR '':''"
  proof (cases m rule: rev_cases)
    case Nil
    then show ?thesis by simp
  next
    case (snoc ys y)
    then show ?thesis by (auto simp: nth_append)
  qed
  then show ?thesis
    by (simp add: test_iff run_ends_colon)
qed

lemma replace_first_ends_colon:
  assumes "test ends_colon m" and "CHR ''$'' \<notin> set t"
  shows "replace_first ends_colon (expand t) m = butlast m @ t"
proof -
  from assms(1) obtain b e c where ex: "exec ends_colon m = Some (b, e, c)"
    by (auto simp: test_def)
  then obtain rest where "run ends_colon m b Map.empty = (e, c) # rest"
    using exec_at_Some [of ends_colon m _ b e c] by (auto simp: exec_def)
  then have be: "Suc b = length m" "e = length m"
    by (auto simp: run_ends_colon split: if_splits)
  then have "take b m = butlast m"
    by (metis butlast_conv_take diff_Suc_1)
  then show ?thesis
    using ex be assms(2) by (simp add: replace_first_def expand_plain)
qed

lemma emitted_eq:
  "emitted m = (if test starts_quote m \<and> test ends_colon m
                then butlast m @ [CHR 0x22, CHR '':''] else m)"
  by (simp add: emitted_def replace_all_same replace_first_ends_colon)

lemma emitted_filter:
  "filter (\<lambda>c. c \<noteq> CHR 0x22) (emitted m) = filter (\<lambda>c. c \<noteq> CHR 0x22) m"
proof (cases "test starts_quote m \<and> test ends_colon m")
  case True
  then have "m \<noteq> []" "last m = CHR '':''"
    by (simp_all add: test_ends_colon)
  then obtain ys where m: "m = ys @ [CHR '':'']"
    by (cases m rule: rev_cases) auto
  have "emitted m = ys @ [CHR 0x22, CHR '':'']"
    using True by (simp add: emitted_eq m)
  then show ?thesis by (simp add: m)
next
  case False
  then have "emitted m = m" by (auto simp: emitted_eq)
  then show ?thesis by simp
qed

lemma emitted_no_angle: "CHR ''<'' \<notin> set m \<Longrightarrow> CHR ''<'' \<notin> set (emitted m)"
  by (auto simp: emitted_eq dest: in_set_butlastD)

lemma concat_map_single: "\<forall>c \<in> set xs. w c = [c] \<Longrightarrow> concat (map w xs) = xs"
  by (induction xs) auto

lemma wrap_prefix:
  assumes wp: "\<And>c. p c \<Longrightarrow> w c \<noteq> [] \<and> hd (w c) = CHR ''<''"
    and wn: "\<And>c. \<not> p c \<Longrightarrow> w c = [c]"
  shows "\<forall>c \<in> set u. \<not> p c \<and> c \<noteq> CHR ''<'' \<Longrightarrow>
         take (length u) (concat (map w xs)) = u \<Longrightarrow> take (length u) xs = u"
proof (induction xs arbitrary: u)
  case Nil
  then show ?case by simp
next
  case (Cons x xs)
  show ?case
  proof (cases u)
    case Nil
    then show ?thesis by simp
  next
    case (Cons a u')
    show ?thesis
    proof (cases "p x")
      case True
      then obtain y ys where "w x = y # ys" "y = CHR ''<''"
        using wp [of x] by (cases "w x") auto
      then have "a = CHR ''<''"
        using Cons.prems(2) Cons by simp
      then show ?thesis using Cons.prems(1) Cons by simp
    next
      case False
      then have "w x = [x]" by (rule wn)
      then show ?thesis
        using Cons.prems Cons Cons.IH [of u'] by simp
    qed
  qed
qed

lemma untag_wrap:
  assumes ok: "tags_ok tags"
    and nop: "\<forall>t \<in> set tags. \<forall>c \<in> set t. \<not> p c"
    and inner: "\<forall>t \<in> set tags. CHR ''<'' \<notin> set (tl t)"
    and plt: "\<not> p (CHR ''<'')"
    and wp: "\<And>c. p c \<Longrightarrow> \<exists>t \<in> set tags. \<exists>t' \<in> set tags. w c = t @ [c] @ t'"
    and wn: "\<And>c. \<not> p c \<Longrightarrow> w c = [c]"
  shows "untag tags (concat (map w xs)) = untag tags xs"
proof (induction xs rule: length_induct)
  case (1 xs)
  show ?case
  proof (cases xs)
    case Nil
    then show ?thesis by simp
  next
  case (Cons c cs)
  have wp': "w x \<noteq> [] \<and> hd (w x) = CHR ''<''" if "p x" for x
  proof -
    from wp [OF that] obtain t t' where "t \<in> set tags" "w x = t @ [x] @ t'" by blast
    moreover then have "t \<noteq> [] \<and> hd t = CHR ''<''" using ok by (auto simp: tags_ok_def)
    ultimately show ?thesis by auto
  qed
  show ?thesis
  proof (cases "find (is_tag_at (c # cs)) tags")
    case None
    have ih: "untag tags (concat (map w cs)) = untag tags cs"
      using "1.IH" Cons by simp
    show ?thesis
    proof (cases "p c")
      case True
      then obtain t t' where t: "t \<in> set tags" "t' \<in> set tags" "w c = t @ [c] @ t'"
        using wp by blast
      have c: "CHR ''<'' \<notin> set [c]" using True plt by auto
      have "untag tags (t @ [c] @ t' @ concat (map w cs)) = untag tags ([c] @ t' @ concat (map w cs))"
        by (rule untag_tag [OF ok t(1)])
      also have "\<dots> = [c] @ untag tags (t' @ concat (map w cs))"
        by (rule untag_text [OF ok c])
      also have "\<dots> = [c] @ untag tags (concat (map w cs))"
        using untag_tag [OF ok t(2)] by simp
      finally show ?thesis using t(3) ih None Cons by simp
    next
      case False
      then have wc: "w c = [c]" by (rule wn)
      have "\<not> is_tag_at (c # concat (map w cs)) t" if "t \<in> set tags" for t
      proof
        assume a: "is_tag_at (c # concat (map w cs)) t"
        then obtain u where u: "t = c # u" "take (length u) (concat (map w cs)) = u"
          by (cases t) (auto simp: is_tag_at_def)
        have "\<forall>x \<in> set u. \<not> p x \<and> x \<noteq> CHR ''<''"
          using nop inner that u(1) by fastforce
        then have "take (length u) cs = u"
          using wrap_prefix [of p w u cs] wp' wn u(2) by blast
        then have "is_tag_at (c # cs) t" using u(1) by (simp add: is_tag_at_def)
        then show False using None that by (simp add: find_None_iff)
      qed
      then have "find (is_tag_at (c # concat (map w cs))) tags = None"
        by (simp add: find_None_iff)
      then show ?thesis using wc ih None Cons by simp
    qed
  next
    case (Some t)
    then have t: "t \<in> set tags" "is_tag_at (c # cs) t"
      by (auto simp: find_Some_iff)
    let ?rest = "drop (length t) (c # cs)"
    have split: "c # cs = t @ ?rest"
      using t(2) by (metis append_take_drop_id is_tag_at_def)
    have "concat (map w t) = t"
      using nop t(1) wn by (intro concat_map_single) auto
    then have "concat (map w (c # cs)) = t @ concat (map w ?rest)"
      by (subst split) simp
    then have "untag tags (concat (map w (c # cs))) = untag tags (concat (map w ?rest))"
      using untag_tag [OF ok t(1)] by simp
    also have "\<dots> = untag tags ?rest"
    proof -
      have "t \<noteq> []" using t(2) by (simp add: is_tag_at_def)
      then have "length ?rest < length xs" using Cons by (cases t) auto
      then show ?thesis using "1.IH" by blast
    qed
    finally show ?thesis using Some Cons by simp
  qed
  qed
qed

lemma untag_syntaxHighlight_page:
  "untag tags_page (syntaxHighlight_page s)
   = replace_all token_re_page (\<lambda>m g. emitted m) (escaped s)"
proof -
  have f: "\<exists>t \<in> set tags_page. \<exists>t' \<in> set tags_page.
             span_color (syntaxColors (color_of m)) (emitted m) = t @ emitted m @ t'" for m
    by (auto simp: color_of_def span_color_def tags_page_def)
  have tok: "untag tags_page (token_pass_page s)
         = replace_all token_re_page (\<lambda>m g. emitted m) (escaped s)"
    unfolding token_pass_page_def replace_all_def
    by (rule untag_replace_scan [OF tags_ok_page])
       (use escaped_no_angle f emitted_no_angle in auto)
  have "untag tags_page (concat (map wrap_structural (token_pass_page s)))
        = untag tags_page (token_pass_page s)"
  proof (rule untag_wrap [OF tags_ok_page, where p = "\<lambda>c. c \<in> set ''{}[]''"])
    show "\<forall>t \<in> set tags_page. \<forall>c \<in> set t. c \<notin> set ''{}[]''"
      by (simp add: tags_page_def)
    show "\<forall>t \<in> set tags_page. CHR ''<'' \<notin> set (tl t)"
      by (simp add: tags_page_def)
    show "CHR ''<'' \<notin> set ''{}[]''"
      by simp
    show "\<exists>t \<in> set tags_page. \<exists>t' \<in> set tags_page. wrap_structural c = t @ [c] @ t'"
      if "c \<in> set ''{}[]''" for c
      using that by (auto simp: wrap_structural_def span_color_def tags_page_def)
    show "wrap_structural c = [c]" if "c \<notin> set ''{}[]''" for c
      using that by (simp add: wrap_structural_def)
  qed
  then show ?thesis
    by (simp add: syntaxHighlight_page_wrap tok)
qed

lemma untag_syntaxHighlight_page_filter:
  "filter (\<lambda>c. c \<noteq> CHR 0x22) (untag tags_page (syntaxHighlight_page s))
   = filter (\<lambda>c. c \<noteq> CHR 0x22) (escaped s)"
  using filter_replace_scan [of "\<lambda>c. c \<noteq> CHR 0x22" emitted
      "[0 ..< Suc (length (escaped s))]" "escaped s" 0 0 token_re_page]
  by (simp add: untag_syntaxHighlight_page replace_all_def emitted_filter del: upt_Suc)

text \<open>
  C4. The three passes of the escaping replace every \<^verbatim>\<open>&\<close>, \<^verbatim>\<open><\<close> and \<^verbatim>\<open>>\<close> of the input by
  its entity, once, and leave every other character as it is; the escaped text holds no angle
  bracket, and each of its ampersands starts an entity. The output of \<open>syntaxHighlight\<close>
  (part_000) is the escaped text with span tags inserted: deleting the tags gives the escaped
  text back. The same holds for page.tsx up to the double quotes that its callback adds to
  keys, so there too every angle bracket of the output belongs to an injected span tag.
\<close>

theorem html_escaping:
  "escaped s = concat (map esc1 s)
   \<and> CHR ''<'' \<notin> set (escaped s) \<and> CHR ''>'' \<notin> set (escaped s)
   \<and> amp_escaped (escaped s)
   \<and> untag tags_part (syntaxHighlight s) = escaped s
   \<and> filter (\<lambda>c. c \<noteq> CHR 0x22) (untag tags_page (syntaxHighlight_page s))
       = filter (\<lambda>c. c \<noteq> CHR 0x22) (escaped s)
   \<and> CHR ''<'' \<notin> set (untag tags_page (syntaxHighlight_page s))
   \<and> CHR ''>'' \<notin> set (untag tags_page (syntaxHighlight_page s))"
proof -
  have f: "filter (\<lambda>c. c \<noteq> CHR 0x22) (untag tags_page (syntaxHighlight_page s))
       = filter (\<lambda>c. c \<noteq> CHR 0x22) (escaped s)"
    by (rule untag_syntaxHighlight_page_filter)
  have "x \<notin> set (untag tags_page (syntaxHighlight_page s))"
    if "x \<noteq> CHR 0x22" "x \<notin> set (escaped s)" for x
  proof
    assume "x \<in> set (untag tags_page (syntaxHighlight_page s))"
    then have "x \<in> set (filter (\<lambda>c. c \<noteq> CHR 0x22) (untag tags_page (syntaxHighlight_page s)))"
      using that(1) by simp
    then have "x \<in> set (escaped s)"
      unfolding f by simp
    then show False using that(2) by simp
  qed
  then have page: "CHR ''<'' \<notin> set (untag tags_page (syntaxHighlight_page s))"
      "CHR ''>'' \<notin> set (untag tags_page (syntaxHighlight_page s))"
    using escaped_no_angle [of s] by simp_all
  have amp: "amp_escaped (escaped s)"
    unfolding escaped_esc1 by (rule amp_escaped_esc1)
  show ?thesis
    using escaped_esc1 [of s] escaped_no_angle [of s] amp untag_syntaxHighlight [of s] f page
    by blast
qed

section \<open>Highlighter: braces and brackets\<close>



section \<open>Highlighter: the text of a token\<close>

text \<open>
  C1. In page.tsx the callback changes the text of a key before wrapping it: the final
  \<^verbatim>\<open>:\<close> is replaced by \<^verbatim>\<open>":\<close>, so the key \<^verbatim>\<open>"name":\<close> comes out as \<^verbatim>\<open>"name"":\<close>. In part_000
  the same key is wrapped unchanged.
\<close>

theorem key_token_altered:
  "syntaxHighlight_page ''{\"name\": 1}'' =
     ''<span style=\"color:#da70d6\">{</span><span style=\"color:#9cdcfe\">\"name\"\":</span> <span style=\"color:#b5cea8\">1</span><span style=\"color:#da70d6\">}</span>''
   \<and> syntaxHighlight ''{\"name\": 1}'' =
     ''{<span class=\"json-key\">\"name\":</span> <span class=\"json-number\">1</span>}''"
  by code_simp

section \<open>Highlighter: classes of tokens\<close>




















end
